theory Spec2Isabelle
  imports Complex_Main "HOL-Library.List_Lexorder"
begin

section \<open>Python values used by \<^verbatim>\<open>pomdp_py/utils/debugging.py\<close>\<close>

text \<open>
  A Python \<^verbatim>\<open>str\<close> is a sequence of Unicode code points, compared lexicographically by
  code point.  It is modelled as a list of naturals; the order on lists of
  \<^theory_text>\<open>HOL-Library.List_Lexorder\<close> is that comparison.
\<close>

type_synonym pystr = "nat list"

definition asc :: "string \<Rightarrow> pystr" where
  "asc s = map of_char s"

text \<open>\<^verbatim>\<open>str(i)\<close> for a Python \<^verbatim>\<open>int\<close>: decimal digits, with a leading minus sign.\<close>

fun digits :: "nat \<Rightarrow> pystr" where
  "digits n = (if n < 10 then [48 + n] else digits (n div 10) @ [48 + n mod 10])"

declare digits.simps [simp del]

definition str_int :: "int \<Rightarrow> pystr" where
  "str_int i = (if i < 0 then 45 # digits (nat (- i)) else digits (nat i))"

text \<open>
  Keys and edge labels.  \<^verbatim>\<open>__getitem__\<close> tells an \<^verbatim>\<open>int\<close> key and a \<^verbatim>\<open>str\<close> key from every
  other object by \<^verbatim>\<open>type(key)\<close>; actions and observations are arbitrary objects with a
  string form and an equality.
\<close>

datatype 'a pyobj = PyInt int | PyStr pystr | PyObj 'a

text \<open>
  What the module imports and \<^verbatim>\<open>src/\<close> does not hold is taken as a parameter:
  \<^verbatim>\<open>pomdp_py.utils.similar\<close>, the four colour functions of \<^verbatim>\<open>pomdp_py.utils.typ\<close>,
  \<^verbatim>\<open>str\<close> of an action or observation object, and the float format \<^verbatim>\<open>{:.3f}\<close>.
\<close>

record 'a ext =
  similar :: "pystr \<Rightarrow> pystr \<Rightarrow> real"
  obj_str :: "'a \<Rightarrow> pystr"
  fmt3f :: "real \<Rightarrow> pystr"
  typ_green :: "pystr \<Rightarrow> pystr"
  typ_red :: "pystr \<Rightarrow> pystr"
  typ_white :: "pystr \<Rightarrow> pystr"
  typ_cyan :: "pystr \<Rightarrow> pystr"

fun py_str :: "'a ext \<Rightarrow> 'a pyobj \<Rightarrow> pystr" where
  "py_str E (PyInt i) = str_int i"
| "py_str E (PyStr s) = s"
| "py_str E (PyObj a) = obj_str E a"

definition SIMILAR_THRESH :: real where
  "SIMILAR_THRESH = 6 / 10"

text \<open>
  \<^verbatim>\<open>sorted(enumerable, key=lambda n: str(n))\<close>: Python's sort is stable, and so is
  \<^const>\<open>sort_key\<close>.
\<close>

definition sorted_by_str :: "'a ext \<Rightarrow> 'a pyobj list \<Rightarrow> 'a pyobj list" where
  "sorted_by_str E enumerable = sort_key (py_str E) enumerable"

text \<open>Python list indexing \<^verbatim>\<open>xs[i]\<close>: a negative index counts from the end; \<open>None\<close> is IndexError.\<close>

definition py_index :: "'b list \<Rightarrow> int \<Rightarrow> 'b option" where
  "py_index xs i =
     (if 0 \<le> i \<and> i < int (length xs) then Some (xs ! nat i)
      else if - int (length xs) \<le> i \<and> i < 0 then Some (xs ! nat (int (length xs) + i))
      else None)"

text \<open>
  \<^verbatim>\<open>max(iterable, key=f)\<close>: the first element whose key is greatest (a later element
  replaces the running maximum only when its key is strictly greater); \<open>None\<close> is the
  ValueError that \<^verbatim>\<open>max\<close> raises on an empty iterable.
\<close>

fun py_max :: "('b \<Rightarrow> real) \<Rightarrow> 'b list \<Rightarrow> 'b option" where
  "py_max f [] = None"
| "py_max f (x # xs) = Some (foldl (\<lambda>best y. if f y > f best then y else best) x xs)"

section \<open>The search tree\<close>

text \<open>
  Modelled from the spec: the classes \<^verbatim>\<open>TreeNode\<close>, \<^verbatim>\<open>VNode\<close> and \<^verbatim>\<open>QNode\<close> of
  \<^verbatim>\<open>pomdp_py.algorithms.po_uct\<close> are not in \<^verbatim>\<open>src/\<close>.  Section 3 of the spec gives a
  node a kind (Decision, the \<^verbatim>\<open>VNode\<close>, or Action, the \<^verbatim>\<open>QNode\<close>), a visit count, a value
  and a mapping from edge labels to child nodes.  The mapping is a Python \<^verbatim>\<open>dict\<close>: it is
  enumerated in insertion order and its keys are distinct, so it is an association list
  here, and \<open>wf_tree\<close> below says that the keys are distinct.  Values are taken to be
  finite floats (no NaN, no infinity) and are compared as reals.
\<close>

datatype kind = VNode | QNode

datatype 'a tnode =
  TreeNode (kind: kind) (num_visits: int) (node_value: real)
           (children: "('a pyobj \<times> 'a tnode) list")

fun wf_tree :: "'a tnode \<Rightarrow> bool" where
  "wf_tree (TreeNode k n v cs) =
     (distinct (map fst cs) \<and> list_all (\<lambda>(e, c). wf_tree c) cs)"

text \<open>The spec's invariant that kinds alternate along every edge.\<close>

fun alternates :: "'a tnode \<Rightarrow> bool" where
  "alternates (TreeNode k n v cs) =
     list_all (\<lambda>(e, c). kind c \<noteq> k \<and> alternates c) cs"

section \<open>The proxies \<^verbatim>\<open>_VNodePP\<close> and \<^verbatim>\<open>_QNodePP\<close>\<close>

text \<open>
  A proxy keeps the wrapped node's visit count, value and children (the same mapping
  object), the edge that led to it, and the flag \<^verbatim>\<open>print_children\<close>.  \<^verbatim>\<open>_node_pp\<close> makes a
  \<^verbatim>\<open>_VNodePP\<close> of a \<^verbatim>\<open>VNode\<close> and a \<^verbatim>\<open>_QNodePP\<close> of anything else, so the proxy's kind is the
  kind of the node it wraps.
\<close>

record 'a proxy =
  wrapped :: "'a tnode"
  parent_edge :: "'a pyobj option"
  print_children :: bool

definition node_pp :: "'a tnode \<Rightarrow> 'a pyobj option \<Rightarrow> 'a proxy" where
  "node_pp node p = \<lparr>wrapped = node, parent_edge = p, print_children = True\<rparr>"

datatype 'a error =
    IndexError
  | KeyError
  | MaxEmptyError
  | CannotAccess "'a pyobj"
  | DepthOutOfRange int int
  | InvalidKind pystr

text \<open>
  \<^verbatim>\<open>_NodePP.__getitem__\<close>.  \<open>IndexError\<close> is what \<^verbatim>\<open>edges[key]\<close> raises,
  \<open>MaxEmptyError\<close> the ValueError of \<^verbatim>\<open>max\<close> on no children, and \<open>CannotAccess key\<close> the
  ValueError of the last line, whose message names the key.
\<close>

definition getitem :: "'a ext \<Rightarrow> 'a proxy \<Rightarrow> 'a pyobj \<Rightarrow> 'a error + 'a proxy" where
  "getitem E self key =
     (let cs = children (wrapped self) in
      case map_of cs key of
        Some child \<Rightarrow> Inr (node_pp child (Some key))
      | None \<Rightarrow>
         (case key of
            PyInt i \<Rightarrow>
              (let edges = sorted_by_str E (map fst cs) in
               case py_index edges i of
                 None \<Rightarrow> Inl IndexError
               | Some e \<Rightarrow>
                  (case map_of cs e of
                     None \<Rightarrow> Inl KeyError
                   | Some child \<Rightarrow> Inr (node_pp child (Some e))))
          | PyStr s \<Rightarrow>
              (case py_max (\<lambda>edge. similar E (py_str E edge) s) (map fst cs) of
                 None \<Rightarrow> Inl MaxEmptyError
               | Some chosen \<Rightarrow>
                  if similar E (py_str E chosen) s \<ge> SIMILAR_THRESH
                  then (case map_of cs chosen of
                          None \<Rightarrow> Inl KeyError
                        | Some child \<Rightarrow> Inr (node_pp child (Some chosen)))
                  else Inl (CannotAccess key))
          | PyObj a \<Rightarrow> Inl (CannotAccess key)))"

section \<open>\<^verbatim>\<open>TreeDebugger.single_node_str\<close> and the proxies' \<^verbatim>\<open>__str__\<close>\<close>

text \<open>
  The class name printed is that of the object passed: \<^verbatim>\<open>_VNodePP\<close> or \<^verbatim>\<open>_QNodePP\<close> for a
  proxy (\<open>pp = True\<close>), \<^verbatim>\<open>VNode\<close> or \<^verbatim>\<open>QNode\<close> for a node of the tree.
\<close>

definition class_name :: "bool \<Rightarrow> kind \<Rightarrow> pystr" where
  "class_name pp k =
     (case k of
        VNode \<Rightarrow> if pp then asc ''_VNodePP'' else asc ''VNode''
      | QNode \<Rightarrow> if pp then asc ''_QNodePP'' else asc ''QNode'')"

text \<open>The part of \<^verbatim>\<open>single_node_str\<close> before \<^verbatim>\<open>if include_children\<close>.\<close>

definition single_node_head ::
  "'a ext \<Rightarrow> bool \<Rightarrow> 'a tnode \<Rightarrow> 'a pyobj option \<Rightarrow> pystr" where
  "single_node_head E pp node p =
     (let color = (if kind node = VNode then typ_green E else typ_red E);
          opposite_color = (if kind node = VNode then typ_red E else typ_green E)
      in (case p of None \<Rightarrow> [] | Some e \<Rightarrow> opposite_color (py_str E e) @ [10230])
         @ color (class_name pp (kind node))
         @ asc ''(n='' @ str_int (num_visits node) @ asc '', v=''
         @ fmt3f E (node_value node) @ asc '')'')"

text \<open>
  One round of the loop over the children: the line of child \<open>i\<close>.  The actions come from
  the keys of the mapping, so \<^verbatim>\<open>node.children[action]\<close> finds each of them.
\<close>

definition child_line ::
  "'a ext \<Rightarrow> 'a tnode \<Rightarrow> nat \<Rightarrow> nat \<Rightarrow> 'a pyobj \<Rightarrow> pystr" where
  "child_line E node indent i action =
     (case map_of (children node) action of
        None \<Rightarrow> []
      | Some child \<Rightarrow>
          concat (replicate indent (asc ''    '')) @ asc ''- ['' @ str_int (int i) @ asc ''] ''
          @ typ_white E (py_str E action) @ asc '': ''
          @ single_node_head E False child None
          @ (if int i < int (length (children node)) - 1 then [10] else []))"

definition single_node_str ::
  "'a ext \<Rightarrow> bool \<Rightarrow> 'a tnode \<Rightarrow> 'a pyobj option \<Rightarrow> nat \<Rightarrow> bool \<Rightarrow> pystr" where
  "single_node_str E pp node p indent include_children =
     single_node_head E pp node p
     @ (if include_children
        then [10]
             @ concat (map (\<lambda>(i, action). child_line E node indent i action)
                           (enumerate 0 (sorted_by_str E (map fst (children node)))))
             @ [10]
        else [])"

definition proxy_str :: "'a ext \<Rightarrow> 'a proxy \<Rightarrow> pystr" where
  "proxy_str E self =
     single_node_str E True (wrapped self) (parent_edge self) 1 (print_children self)"

section \<open>Rendering: \<^verbatim>\<open>_NodePP._print_tree_helper\<close>\<close>

text \<open>
  The traversals below reach a child as \<^verbatim>\<open>root[c]\<close>, that is through \<open>getitem\<close>; what it
  returns wraps a child of the node, which is why they terminate.  They ask only for
  edges \<open>c\<close> of the node, for which \<open>getitem\<close> returns the child (lemma \<open>getitem_edge\<close>),
  so the branch \<open>Inl\<close> of their case distinctions is never taken; a proxy is never
  \<^verbatim>\<open>None\<close>, so the test \<^verbatim>\<open>root is None\<close> has no branch.
\<close>

lemma child_size:
  "(e, c) \<in> set cs \<Longrightarrow> size c < Suc (size_list (size_prod size size) cs)"
  by (induction cs) auto

lemma child_size_sel:
  "(e, c) \<in> set (children t) \<Longrightarrow> size c < size t"
  by (cases t) (auto dest: child_size)

lemma getitem_child:
  "getitem E self key = Inr q \<Longrightarrow>
   \<exists>e. (e, wrapped q) \<in> set (children (wrapped self)) \<and> q = node_pp (wrapped q) (Some e)"
  by (auto simp: getitem_def Let_def node_pp_def split: option.splits pyobj.splits if_splits
           dest!: map_of_SomeD)


lemma getitem_size:
  "getitem E self key = Inr q \<Longrightarrow> size (wrapped q) < size (wrapped self)"
  by (cases "wrapped self") (auto dest!: getitem_child dest: child_size)

text \<open>
  The positions \<^verbatim>\<open>"first"\<close>, \<^verbatim>\<open>"middle"\<close> and \<^verbatim>\<open>"last"\<close>; the list \<^verbatim>\<open>branch_positions\<close> starts
  as \<^verbatim>\<open>[None]\<close>.  A printed line is \<open>branches l @ body l\<close>: the prefix built from the
  positions, then \<^verbatim>\<open>str(root)\<close> and, for a \<^verbatim>\<open>VNode\<close>, the depth.  The code points are those
  of the box-drawing characters of the source.
\<close>

datatype pos = First | Middle | Last

record line =
  branches :: pystr
  body :: pystr

definition branch_glyphs :: "pos option list \<Rightarrow> pystr" where
  "branch_glyphs branch_positions =
     concat (map (\<lambda>pos. case pos of
                           None \<Rightarrow> []
                         | Some Last \<Rightarrow> [32, 32, 32, 32, 32]
                         | Some _ \<Rightarrow> [9474, 32, 32, 32, 32])
                 (butlast branch_positions))
     @ (case last branch_positions of
          None \<Rightarrow> []
        | Some Last \<Rightarrow> [9492, 9472, 9472, 9472, 32]
        | Some _ \<Rightarrow> [9500, 9472, 9472, 9472, 32])"

text \<open>
  \<^verbatim>\<open>_print_tree_helper\<close> returns the lines printed, in order, and the proxy it was given
  after the assignment to \<^verbatim>\<open>print_children\<close>.  The proxies of the children are made by
  \<^verbatim>\<open>root[c]\<close> for the call and dropped after it.  \<^verbatim>\<open>root[c]\<close> cannot fail for an edge \<open>c\<close> of
  the node (lemma \<open>getitem_edge\<close>); \<^verbatim>\<open>branch_positions\<close> is never empty, the only caller
  being \<^verbatim>\<open>print_tree\<close>.
\<close>

function print_tree_helper ::
  "'a ext \<Rightarrow> 'a proxy \<Rightarrow> 'a pyobj option \<Rightarrow> pos option list \<Rightarrow> int \<Rightarrow> int option \<Rightarrow> pystr
   \<Rightarrow> line list \<times> 'a proxy" where
  "print_tree_helper E rt pedge branch_positions depth md print_type =
     (if (case md of None \<Rightarrow> False | Some m \<Rightarrow> depth > m) then ([], rt)
      else
        let rt1 = rt\<lparr>print_children := False\<rparr>;
            ln = \<lparr>branches = branch_glyphs branch_positions,
                  body = proxy_str E rt1
                         @ (if kind (wrapped rt1) = VNode
                            then typ_cyan E (asc ''(depth='' @ str_int depth @ asc '')'')
                            else [])\<rparr>;
            n = int (length (children (wrapped rt1)))
        in (ln # concat (map (\<lambda>(i, c).
                   case getitem E rt1 c of
                     Inl err \<Rightarrow> []
                   | Inr child \<Rightarrow>
                       if print_type = asc ''complete'' \<or> num_visits (wrapped child) > 1
                       then fst (print_tree_helper E child (Some c)
                                   (branch_positions
                                    @ [Some (if int i = n - 1 then Last
                                             else if i = 0 then First else Middle)])
                                   (if kind (wrapped child) = QNode then depth else depth + 1)
                                   md print_type)
                       else [])
                 (enumerate 0 (sorted_by_str E (map fst (children (wrapped rt1)))))),
            rt1))"
  by pat_completeness auto
termination
  by (relation "measure (\<lambda>(E, rt, pedge, bp, depth, md, pt). size (wrapped rt))")
     (auto dest: getitem_size)


declare print_tree_helper.simps [simp del]

definition print_tree :: "'a ext \<Rightarrow> 'a proxy \<Rightarrow> int option \<Rightarrow> pystr \<Rightarrow> line list \<times> 'a proxy" where
  "print_tree E self md print_type = print_tree_helper E self None [None] 0 md print_type"

definition NodePP_p :: "'a ext \<Rightarrow> 'a proxy \<Rightarrow> int option \<Rightarrow> pystr \<Rightarrow> line list \<times> 'a proxy" where
  "NodePP_p E self md print_type = print_tree E self md print_type"

definition NodePP_pp :: "'a ext \<Rightarrow> 'a proxy \<Rightarrow> line list \<times> 'a proxy" where
  "NodePP_pp E self = print_tree E self None (asc ''summary'')"

section \<open>Statistics: \<^verbatim>\<open>TreeDebugger.tree_stats\<close>\<close>

text \<open>
  The dictionary \<^verbatim>\<open>stats\<close> has seven entries while the helper runs; \<^verbatim>\<open>tree_stats\<close> adds
  \<^verbatim>\<open>num_visits\<close> and \<^verbatim>\<open>value\<close> of the root to it.
\<close>

record stats =
  total_vnodes :: int
  total_qnodes :: int
  total_vnodes_children :: int
  total_qnodes_children :: int
  max_vnodes_children :: int
  max_qnodes_children :: int
  max_depth :: int

record stats_record = stats +
  stat_num_visits :: int
  stat_value :: real

function tree_stats_helper ::
  "'a ext \<Rightarrow> 'a proxy \<Rightarrow> int \<Rightarrow> stats \<Rightarrow> int option \<Rightarrow> stats" where
  "tree_stats_helper E rt depth st md =
     (if (case md of None \<Rightarrow> False | Some m \<Rightarrow> depth > m) then st
      else
        let n = int (length (children (wrapped rt)));
            st1 = (if kind (wrapped rt) = VNode
                   then st\<lparr>total_vnodes := total_vnodes st + 1,
                           total_vnodes_children := total_vnodes_children st + n,
                           max_vnodes_children := max (max_vnodes_children st) n,
                           max_depth := depth\<rparr>
                   else st\<lparr>total_qnodes := total_qnodes st + 1,
                           total_qnodes_children := total_qnodes_children st + n,
                           max_qnodes_children := max (max_qnodes_children st) n\<rparr>)
        in foldl (\<lambda>s c. case getitem E rt c of
                            Inl err \<Rightarrow> s
                          | Inr child \<Rightarrow> tree_stats_helper E child (depth + 1) s md)
                 st1 (map fst (children (wrapped rt))))"
  by pat_completeness auto
termination
  by (relation "measure (\<lambda>(E, rt, depth, st, md). size (wrapped rt))")
     (auto dest: getitem_size)

declare tree_stats_helper.simps [simp del]

definition tree_stats :: "'a ext \<Rightarrow> 'a proxy \<Rightarrow> int option \<Rightarrow> stats_record" where
  "tree_stats E rt md =
     (let st = tree_stats_helper E rt 0
                 \<lparr>total_vnodes = 0, total_qnodes = 0, total_vnodes_children = 0,
                  total_qnodes_children = 0, max_vnodes_children = 0,
                  max_qnodes_children = 0, max_depth = - 1\<rparr> md
      in stats.extend st
           \<lparr>stat_num_visits = num_visits (wrapped rt),
            stat_value = node_value (wrapped rt)\<rparr>)"

section \<open>Layers: \<^verbatim>\<open>TreeDebugger._layer_helper\<close>\<close>

function layer_helper ::
  "'a ext \<Rightarrow> 'a proxy \<Rightarrow> int \<Rightarrow> int \<Rightarrow> 'a proxy list \<Rightarrow> 'a proxy list" where
  "layer_helper E rt current_depth target_depth nodes =
     (if current_depth = target_depth
      then (if kind (wrapped rt) = VNode then nodes @ [rt] else nodes)
      else foldl (\<lambda>ns c. case getitem E rt c of
                             Inl err \<Rightarrow> ns
                           | Inr child \<Rightarrow>
                               layer_helper E child
                                 (if kind (wrapped child) = QNode then current_depth
                                  else current_depth + 1)
                                 target_depth ns)
                 nodes (sorted_by_str E (map fst (children (wrapped rt)))))"
  by pat_completeness auto
termination
  by (relation "measure (\<lambda>(E, rt, cd, td, nodes). size (wrapped rt))")
     (auto dest: getitem_size)

declare layer_helper.simps [simp del]

section \<open>The preferred path: \<^verbatim>\<open>print_preferred_actions\<close>\<close>

text \<open>
  \<^verbatim>\<open>best_value\<close> starts as \<^verbatim>\<open>float('-inf')\<close>, below every value.  The helper is called on
  the tree or on \<^verbatim>\<open>root[best_child]\<close>; \<open>None\<close> is Python's \<^verbatim>\<open>None\<close>.  A printed line
  \<^verbatim>\<open>"  %s  %s" % (str(best_child), str(equally_good))\<close> is kept as the pair it shows.
\<close>

datatype bound = NegInf | Fin real

fun exceeds :: "real \<Rightarrow> bound \<Rightarrow> bool" where
  "exceeds v NegInf = True"
| "exceeds v (Fin b) = (v > b)"

record 'a pref_line =
  pl_best :: "'a pyobj"
  pl_equally_good :: "'a pyobj list"

definition best_of ::
  "('a pyobj \<times> 'a tnode) list \<Rightarrow> 'a pyobj option \<times> bound" where
  "best_of cs =
     foldl (\<lambda>(best_child, best_value) c.
              case map_of cs c of
                None \<Rightarrow> (best_child, best_value)
              | Some n \<Rightarrow> if exceeds (node_value n) best_value
                          then (Some c, Fin (node_value n))
                          else (best_child, best_value))
           (None, NegInf) (map fst cs)"

definition equally_good_of ::
  "kind \<Rightarrow> ('a pyobj \<times> 'a tnode) list \<Rightarrow> 'a pyobj option \<Rightarrow> bound \<Rightarrow> 'a pyobj list" where
  "equally_good_of k cs best_child best_value =
     (if k = VNode
      then foldl (\<lambda>eg c. case map_of cs c of
                            None \<Rightarrow> eg
                          | Some n \<Rightarrow> if \<not> (Some c = best_child) \<and> Fin (node_value n) = best_value
                                      then eg @ [c] else eg)
                 [] (map fst cs)
      else [])"

function print_preferred_actions_helper ::
  "'a tnode option \<Rightarrow> int \<Rightarrow> int option \<Rightarrow> 'a pref_line list" where
  "print_preferred_actions_helper rt depth md =
     (if (case md of None \<Rightarrow> False | Some m \<Rightarrow> depth \<ge> m) then []
      else case rt of
        None \<Rightarrow> []
      | Some r \<Rightarrow>
          (case best_of (children r) of (best_child, best_value) \<Rightarrow>
             let eg = equally_good_of (kind r) (children r) best_child best_value in
             case best_child of
               None \<Rightarrow> []
             | Some b \<Rightarrow>
                 (case map_of (children r) b of
                    None \<Rightarrow> []
                  | Some child \<Rightarrow>
                      (if kind child = QNode then [\<lparr>pl_best = b, pl_equally_good = eg\<rparr>] else [])
                      @ print_preferred_actions_helper (Some child) (depth + 1) md)))"
  by pat_completeness auto
termination
  by (relation "measure (\<lambda>(rt, depth, md). case rt of None \<Rightarrow> 0 | Some r \<Rightarrow> size r)")
     (auto dest!: map_of_SomeD dest: child_size_sel)

declare print_preferred_actions_helper.simps [simp del]

definition print_preferred_actions :: "'a tnode \<Rightarrow> int option \<Rightarrow> 'a pref_line list" where
  "print_preferred_actions tree md = print_preferred_actions_helper (Some tree) 0 md"

section \<open>The class \<^verbatim>\<open>TreeDebugger\<close>\<close>

text \<open>
  The debugger holds two references to proxies, \<^verbatim>\<open>tree\<close> and \<^verbatim>\<open>current\<close>, at first to the
  same object.  \<open>tree_id\<close> and \<open>current_id\<close> are \<^verbatim>\<open>id(self.tree)\<close> and \<^verbatim>\<open>id(self.current)\<close>:
  the cache of statistics is keyed by the latter, and an assignment to a field of the
  current proxy is seen through \<^verbatim>\<open>tree\<close> when the two are one object.
\<close>

record 'a debugger =
  tree :: "'a proxy"
  tree_id :: nat
  current :: "'a proxy"
  current_id :: nat
  dbg_parent_edge :: "'a pyobj option"
  stats_cache :: "nat \<rightharpoonup> stats_record"

text \<open>
  \<^verbatim>\<open>__init__\<close>; \<open>i\<close> is the identity of the proxy it creates.  Every value of the type of
  nodes is a \<^verbatim>\<open>TreeNode\<close>, so the ValueError of the first line has no branch.
\<close>

definition TreeDebugger_init :: "'a tnode \<Rightarrow> nat \<Rightarrow> 'a debugger" where
  "TreeDebugger_init t i =
     \<lparr>tree = node_pp t None, tree_id = i, current = node_pp t None, current_id = i,
      dbg_parent_edge = None, stats_cache = Map.empty\<rparr>"

definition TreeDebugger_str :: "'a ext \<Rightarrow> 'a debugger \<Rightarrow> pystr" where
  "TreeDebugger_str E self = proxy_str E (current self)"

definition TreeDebugger_repr :: "'a ext \<Rightarrow> 'a debugger \<Rightarrow> pystr" where
  "TreeDebugger_repr E self =
     asc ''TreeDebugger@'' @ [10]
     @ single_node_str E True (wrapped (current self)) (dbg_parent_edge self) 1 True"

definition TreeDebugger_getitem ::
  "'a ext \<Rightarrow> 'a debugger \<Rightarrow> 'a pyobj \<Rightarrow> 'a error + 'a proxy" where
  "TreeDebugger_getitem E self key = getitem E (current self) key"

definition get_stats :: "'a ext \<Rightarrow> 'a debugger \<Rightarrow> stats_record \<times> 'a debugger" where
  "get_stats E self =
     (case stats_cache self (current_id self) of
        Some st \<Rightarrow> (st, self)
      | None \<Rightarrow>
          (let st = tree_stats E (current self) None
           in (st, self\<lparr>stats_cache := (stats_cache self)(current_id self \<mapsto> st)\<rparr>)))"


definition TreeDebugger_depth :: "'a ext \<Rightarrow> 'a debugger \<Rightarrow> int \<times> 'a debugger" where
  "TreeDebugger_depth E self =
     (case get_stats E self of (st, self') \<Rightarrow> (max_depth st, self'))"

text \<open>
  \<^verbatim>\<open>layer\<close>: \<^verbatim>\<open>self.depth\<close> is read in the test or, when \<^verbatim>\<open>depth < 0\<close> cuts the test short, in
  the message of the error, so the cache is filled on every path.  \<^verbatim>\<open>as_debuggers\<close> is
  not used by the source.
\<close>

definition TreeDebugger_layer ::
  "'a ext \<Rightarrow> 'a debugger \<Rightarrow> int \<Rightarrow> bool \<Rightarrow> ('a error + 'a proxy list) \<times> 'a debugger" where
  "TreeDebugger_layer E self depth as_debuggers =
     (case TreeDebugger_depth E self of (d, self') \<Rightarrow>
        (if depth < 0 \<or> depth > d then Inl (DepthOutOfRange depth d)
         else Inr (layer_helper E (current self) 0 depth []),
         self'))"

definition TreeDebugger_p ::
  "'a ext \<Rightarrow> 'a debugger \<Rightarrow> int option \<Rightarrow> pystr \<Rightarrow> line list \<times> 'a debugger" where
  "TreeDebugger_p E self md print_type =
     (case NodePP_p E (current self) md print_type of (out, cur) \<Rightarrow>
        (out, self\<lparr>current := cur,
                   tree := (if tree_id self = current_id self then cur else tree self)\<rparr>))"

definition TreeDebugger_pp :: "'a ext \<Rightarrow> 'a debugger \<Rightarrow> line list \<times> 'a debugger" where
  "TreeDebugger_pp E self =
     (case NodePP_pp E (current self) of (out, cur) \<Rightarrow>
        (out, self\<lparr>current := cur,
                   tree := (if tree_id self = current_id self then cur else tree self)\<rparr>))"

section \<open>Nodes by their path\<close>









section \<open>What the claims speak of\<close>


fun has_vnode_within :: "int option \<Rightarrow> int \<Rightarrow> 'a tnode \<Rightarrow> bool" where
  "has_vnode_within md depth (TreeNode k n v cs) =
     (\<not> (case md of None \<Rightarrow> False | Some m \<Rightarrow> depth > m)
      \<and> (k = VNode \<or> list_ex (\<lambda>(e, c). has_vnode_within md (depth + 1) c) cs))"

definition cache_ok :: "'a ext \<Rightarrow> 'a debugger \<Rightarrow> bool" where
  "cache_ok E self =
     (case stats_cache self (current_id self) of
        None \<Rightarrow> True
      | Some st \<Rightarrow> st = tree_stats E (current self) None)"

text \<open>
  An environment and trees to evaluate on: the scenario of the spec (a Decision node with
  the Action children \<^verbatim>\<open>"up"\<close>, visited 5 times with value 1, and \<^verbatim>\<open>"down"\<close>, visited once
  with value 2), a chain Decision, Action, Decision, and a childless Action node.
\<close>

definition E0 :: "unit ext" where
  "E0 = \<lparr>similar = (\<lambda>a b. if a = b then 1 else 0), obj_str = (\<lambda>u. []), fmt3f = (\<lambda>r. []),
         typ_green = (\<lambda>s. s), typ_red = (\<lambda>s. s), typ_white = (\<lambda>s. s), typ_cyan = (\<lambda>s. s)\<rparr>"

definition scenario :: "unit tnode" where
  "scenario = TreeNode VNode 6 2
     [(PyStr (asc ''up''), TreeNode QNode 5 1 []),
      (PyStr (asc ''down''), TreeNode QNode 1 2 [])]"

definition chain :: "unit tnode" where
  "chain = TreeNode VNode 2 0
     [(PyStr (asc ''a''), TreeNode QNode 2 0 [(PyStr (asc ''o''), TreeNode VNode 1 0 [])])]"

definition lone_action :: "unit tnode" where
  "lone_action = TreeNode QNode 1 2 []"

text \<open>
  The maximum depth as claim C1 has it: the depths of the Decision nodes of a tree, the
  depth being 0 at the root and one more on each step from an Action node to a Decision
  node, and their maximum (\<open>- 1\<close> when there is none).
\<close>

fun decision_depths :: "'a tnode \<Rightarrow> int \<Rightarrow> int list" where
  "decision_depths (TreeNode k n v cs) d =
     (if k = VNode then [d] else [])
     @ concat (map (\<lambda>(e, c). decision_depths c (if k = QNode \<and> kind c = VNode then d + 1 else d))
                   cs)"

definition max_decision_depth :: "'a tnode \<Rightarrow> int" where
  "max_decision_depth t = foldl max (- 1) (decision_depths t 0)"

text \<open>The lines of \<^verbatim>\<open>single_node_str\<close> that list the children.\<close>

definition child_listing :: "'a ext \<Rightarrow> 'a tnode \<Rightarrow> pystr" where
  "child_listing E node =
     concat (map (\<lambda>(i, action). child_line E node 1 i action)
                 (enumerate 0 (sorted_by_str E (map fst (children node)))))"







section \<open>Lemmas\<close>



lemma wf_tree_distinct: "wf_tree t \<Longrightarrow> distinct (map fst (children t))"
  by (cases t) auto


lemma get_stats_ok:
  "cache_ok E d \<Longrightarrow> fst (get_stats E d) = tree_stats E (current d) None"
  by (simp add: get_stats_def cache_ok_def Let_def split: option.splits)









lemma foldl_invariant:
  "(\<And>s x. x \<in> set xs \<Longrightarrow> g (f s x) = g s) \<Longrightarrow> g (foldl f s0 xs) = g s0"
  by (induction xs arbitrary: s0) auto

lemma no_vnode_max_depth:
  "\<not> has_vnode_within md depth t \<Longrightarrow> wrapped rt = t \<Longrightarrow>
   max_depth (tree_stats_helper E rt depth st md) = max_depth st"
proof (induction t arbitrary: rt depth st rule: measure_induct_rule [where f = size])
  case (less t)
  obtain k n v cs where t: "t = TreeNode k n v cs" by (cases t)
  show ?case
  proof (cases "case md of None \<Rightarrow> False | Some m \<Rightarrow> depth > m")
    case True
    then show ?thesis by (subst tree_stats_helper.simps) simp
  next
    case False
    with less.prems(1) t have k: "k = QNode"
      and nc: "\<And>e c. (e, c) \<in> set cs \<Longrightarrow> \<not> has_vnode_within md (depth + 1) c"
      by (cases k; auto simp: list_ex_iff)+
    have step: "\<And>s x. x \<in> set (map fst cs) \<Longrightarrow>
        max_depth (case getitem E rt x of Inl err \<Rightarrow> s
                   | Inr child \<Rightarrow> tree_stats_helper E child (depth + 1) s md) = max_depth s"
    proof -
      fix s x assume "x \<in> set (map fst cs)"
      show "max_depth (case getitem E rt x of Inl err \<Rightarrow> s
                   | Inr child \<Rightarrow> tree_stats_helper E child (depth + 1) s md) = max_depth s"
      proof (cases "getitem E rt x")
        case (Inl a)
        then show ?thesis by simp
      next
        case (Inr child)
        from getitem_child [OF Inr] obtain e where
          m: "(e, wrapped child) \<in> set (children (wrapped rt))" by blast
        then have m': "(e, wrapped child) \<in> set cs" using less.prems(2) t by simp
        have sz: "size (wrapped child) < size t"
          using m less.prems(2) by (auto dest: child_size_sel)
        show ?thesis
          using less.IH [OF sz nc [OF m'] refl] Inr by simp
      qed
    qed
    show ?thesis
      apply (subst tree_stats_helper.simps)
      using False less.prems(2) t k
      apply (simp add: Let_def)
      apply (subst foldl_invariant [where g = max_depth])
      using step apply simp
      apply simp
      done
  qed
qed

lemma no_vnode_tree_stats:
  "\<not> has_vnode_within md 0 (wrapped rt) \<Longrightarrow> max_depth (tree_stats E rt md) = - 1"
  using no_vnode_max_depth [of md 0 "wrapped rt" rt E]
  by (simp add: tree_stats_def Let_def stats.defs)

lemma depth_is_stats:
  "fst (TreeDebugger_depth E d) = max_depth (fst (get_stats E d))"
  by (simp add: TreeDebugger_depth_def split: prod.splits)

lemma layer_result:
  "fst (TreeDebugger_layer E d dp b) =
     (if dp < 0 \<or> dp > fst (TreeDebugger_depth E d)
      then Inl (DepthOutOfRange dp (fst (TreeDebugger_depth E d)))
      else Inr (layer_helper E (current d) 0 dp []))"
  by (simp add: TreeDebugger_layer_def split: prod.splits)

lemma foldl_max_in:
  "foldl (\<lambda>best y. if f y > f best then y else best) x xs \<in> insert x (set xs)"
  by (induction xs arbitrary: x) (auto split: if_splits)

lemma py_max_in: "py_max f xs = Some m \<Longrightarrow> m \<in> set xs"
  using foldl_max_in [of f] by (cases xs) auto

lemma foldl_max_ge:
  fixes f :: "'b \<Rightarrow> real"
  shows "f x \<le> f (foldl (\<lambda>best y. if f y > f best then y else best) x xs)
   \<and> (\<forall>y \<in> set xs. f y \<le> f (foldl (\<lambda>best y. if f y > f best then y else best) x xs))"
proof (induction xs arbitrary: x)
  case Nil
  then show ?case by simp
next
  case (Cons a xs)
  show ?case
    using Cons.IH [of "if f a > f x then a else x"]
    by (auto split: if_splits)
qed

lemma py_max_ge: "py_max (f :: 'b \<Rightarrow> real) xs = Some m \<Longrightarrow> y \<in> set xs \<Longrightarrow> f y \<le> f m"
  using foldl_max_ge [of f] by (cases xs) auto

lemma py_max_some: "xs \<noteq> [] \<Longrightarrow> \<exists>m. py_max f xs = Some m"
  by (cases xs) auto

lemma getitem_fuzzy:
  assumes "map_of (children (wrapped self)) (PyStr s) = None"
    and "children (wrapped self) \<noteq> []"
  shows "\<exists>chosen child. (chosen, child) \<in> set (children (wrapped self))
           \<and> (\<forall>e \<in> fst ` set (children (wrapped self)).
                 similar E (py_str E e) s \<le> similar E (py_str E chosen) s)
           \<and> getitem E self (PyStr s)
               = (if similar E (py_str E chosen) s \<ge> 6 / 10
                  then Inr (node_pp child (Some chosen))
                  else Inl (CannotAccess (PyStr s)))"
proof -
  let ?cs = "children (wrapped self)"
  let ?f = "\<lambda>edge. similar E (py_str E edge) s"
  from assms(2) obtain chosen where m: "py_max ?f (map fst ?cs) = Some chosen"
    using py_max_some [of "map fst ?cs" ?f] by auto
  from py_max_in [OF m] have "chosen \<in> fst ` set ?cs" by simp
  then obtain child where c: "map_of ?cs chosen = Some child"
    by (cases "map_of ?cs chosen") (auto simp: map_of_eq_None_iff)
  have ge: "\<forall>e \<in> fst ` set ?cs. ?f e \<le> ?f chosen"
    using py_max_ge [OF m] by auto
  have "getitem E self (PyStr s)
               = (if similar E (py_str E chosen) s \<ge> 6 / 10
                  then Inr (node_pp child (Some chosen))
                  else Inl (CannotAccess (PyStr s)))"
    using assms(1) m c by (simp add: getitem_def SIMILAR_THRESH_def)
  with ge map_of_SomeD [OF c] show ?thesis by blast
qed

lemma print_tree_helper_snd:
  "snd (print_tree_helper E rt pe bps depth md pt) =
     (if (case md of None \<Rightarrow> False | Some m \<Rightarrow> depth > m) then rt
      else rt\<lparr>print_children := False\<rparr>)"
  by (subst print_tree_helper.simps) (simp add: Let_def)

lemma sorted_by_str_props:
  "sorted (map (py_str E) (sorted_by_str E ks)) \<and> set (sorted_by_str E ks) = set ks
   \<and> length (sorted_by_str E ks) = length ks"
  by (simp add: sorted_by_str_def)

lemma map_of_edge:
  "e \<in> fst ` set cs \<Longrightarrow> \<exists>c. map_of cs e = Some c"
  by (cases "map_of cs e") (auto simp: map_of_eq_None_iff)

lemma proxy_str_flag:
  "proxy_str E self =
     single_node_head E True (wrapped self) (parent_edge self)
     @ (if print_children self then [10] @ child_listing E (wrapped self) @ [10] else [])"
  by (simp add: proxy_str_def single_node_str_def child_listing_def)

lemma print_tree_snd:
  "snd (print_tree E self md pt) =
     (if (case md of None \<Rightarrow> False | Some m \<Rightarrow> m < 0) then self
      else self\<lparr>print_children := False\<rparr>)"
  by (simp add: print_tree_def print_tree_helper_snd)


lemma alternates_child:
  "alternates t \<Longrightarrow> map_of (children t) e = Some c \<Longrightarrow> kind c \<noteq> kind t \<and> alternates c"
  by (cases t) (auto simp: list_all_iff dest!: map_of_SomeD)

lemma kind_not_Q: "(k \<noteq> QNode) = (k = VNode)"
  by (cases k) auto



lemma map_of_distinct_mem:
  "distinct (map fst cs) \<Longrightarrow> (e, c) \<in> set cs \<Longrightarrow> map_of cs e = Some c"
  by simp

lemma best_loop_resolved:
  assumes "distinct (map fst cs)" and "set ys \<subseteq> set cs"
  shows "foldl (\<lambda>(best_child, best_value) c.
              case map_of cs c of
                None \<Rightarrow> (best_child, best_value)
              | Some n \<Rightarrow> if exceeds (node_value n) best_value
                          then (Some c, Fin (node_value n))
                          else (best_child, best_value)) acc (map fst ys)
         = foldl (\<lambda>(best_child, best_value) (e, n).
                    if exceeds (node_value n) best_value then (Some e, Fin (node_value n))
                    else (best_child, best_value)) acc ys"
  using assms(2)
proof (induction ys arbitrary: acc)
  case Nil
  then show ?case by simp
next
  case (Cons y ys)
  obtain e c where y: "y = (e, c)" by (cases y)
  have "map_of cs e = Some c" using Cons.prems y assms(1) by simp
  then show ?case using Cons y by (cases acc) simp
qed

lemma best_loop_first_max:
  assumes "ys \<noteq> []"
  shows "\<exists>pre b child post. ys = pre @ (b, child) # post
           \<and> (\<forall>(e, c) \<in> set pre. node_value c < node_value child)
           \<and> (\<forall>(e, c) \<in> set post. node_value c \<le> node_value child)
           \<and> foldl (\<lambda>(best_child, best_value) (e, n).
                    if exceeds (node_value n) best_value then (Some e, Fin (node_value n))
                    else (best_child, best_value)) (None, NegInf) ys
               = (Some b, Fin (node_value child))"
  using assms
proof (induction ys rule: rev_induct)
  case Nil
  then show ?case by simp
next
  case (snoc y ys)
  obtain e c where y: "y = (e, c)" by (cases y)
  show ?case
  proof (cases "ys = []")
    case True
    show ?thesis
      by (rule exI [of _ "[]"], rule exI [of _ e], rule exI [of _ c], rule exI [of _ "[]"])
         (simp add: True y)
  next
    case False
    from snoc.IH [OF False] obtain pre b child post where
      d: "ys = pre @ (b, child) # post"
      and lt: "\<forall>(e, c) \<in> set pre. node_value c < node_value child"
      and le: "\<forall>(e, c) \<in> set post. node_value c \<le> node_value child"
      and r: "foldl (\<lambda>(best_child, best_value) (e, n).
                    if exceeds (node_value n) best_value then (Some e, Fin (node_value n))
                    else (best_child, best_value)) (None, NegInf) ys
               = (Some b, Fin (node_value child))" by blast
    show ?thesis
    proof (cases "node_value c > node_value child")
      case True
      have a: "ys @ [y] = ys @ (e, c) # []" using y by simp
      have b: "\<forall>(e', c') \<in> set ys. node_value c' < node_value c"
        using d lt le True by fastforce
      have "foldl (\<lambda>(best_child, best_value) (e, n).
                    if exceeds (node_value n) best_value then (Some e, Fin (node_value n))
                    else (best_child, best_value)) (None, NegInf) (ys @ [y])
               = (Some e, Fin (node_value c))"
        using r True y by simp
      with a b show ?thesis
        by (intro exI [of _ ys] exI [of _ e] exI [of _ c] exI [of _ "[]"]) simp
    next
      case False
      have a: "ys @ [y] = pre @ (b, child) # (post @ [(e, c)])" using d y by simp
      have b: "\<forall>(e', c') \<in> set (post @ [(e, c)]). node_value c' \<le> node_value child"
        using le False by auto
      have "foldl (\<lambda>(best_child, best_value) (e, n).
                    if exceeds (node_value n) best_value then (Some e, Fin (node_value n))
                    else (best_child, best_value)) (None, NegInf) (ys @ [y])
               = (Some b, Fin (node_value child))"
        using r False y by simp
      with a b lt show ?thesis
        by (intro exI [of _ pre] exI [of _ b] exI [of _ child] exI [of _ "post @ [(e, c)]"])
           simp
    qed
  qed
qed

lemma best_of_first_max:
  assumes "distinct (map fst cs)" and "cs \<noteq> []"
  shows "\<exists>pre b child post. cs = pre @ (b, child) # post
           \<and> (\<forall>(e, c) \<in> set pre. node_value c < node_value child)
           \<and> (\<forall>(e, c) \<in> set post. node_value c \<le> node_value child)
           \<and> best_of cs = (Some b, Fin (node_value child))"
  using best_loop_first_max [OF assms(2)]
  unfolding best_of_def best_loop_resolved [OF assms(1) subset_refl] .

lemma equally_good_loop:
  assumes "distinct (map fst cs)" and "set ys \<subseteq> set cs"
  shows "foldl (\<lambda>eg c. case map_of cs c of
                            None \<Rightarrow> eg
                          | Some n \<Rightarrow> if \<not> (Some c = best_child) \<and> Fin (node_value n) = best_value
                                      then eg @ [c] else eg) acc (map fst ys)
         = acc @ map fst (filter (\<lambda>(e, n). Some e \<noteq> best_child \<and> Fin (node_value n) = best_value) ys)"
  using assms(2)
proof (induction ys arbitrary: acc)
  case Nil
  then show ?case by simp
next
  case (Cons y ys)
  obtain e c where y: "y = (e, c)" by (cases y)
  have "map_of cs e = Some c" using Cons.prems y assms(1) by simp
  then show ?case using Cons y by simp
qed

lemma equally_good_of_filter:
  "distinct (map fst cs) \<Longrightarrow>
   equally_good_of k cs (Some b) (Fin v) =
     (if k = VNode then map fst (filter (\<lambda>(e, n). e \<noteq> b \<and> node_value n = v) cs) else [])"
  by (simp add: equally_good_of_def equally_good_loop [OF _ subset_refl])



















section \<open>The claims\<close>





text \<open>
  C10: when \<^verbatim>\<open>_tree_stats_helper\<close> meets no Decision node within its bound, \<^verbatim>\<open>max_depth\<close>
  keeps the value \<open>- 1\<close> it starts with; then, for a debugger whose cache is sound, the
  property \<^verbatim>\<open>depth\<close> is \<open>- 1\<close> and \<^verbatim>\<open>layer(d)\<close> raises the out-of-range error for every
  \<open>d \<ge> 0\<close>.  The witness is a childless Action node.
\<close>

theorem no_decision_node_depth:
  "(\<not> has_vnode_within md 0 (wrapped rt) \<longrightarrow> max_depth (tree_stats E rt md) = - 1)
   \<and> (\<not> has_vnode_within None 0 (wrapped (current d)) \<and> cache_ok E d \<longrightarrow>
        fst (TreeDebugger_depth E d) = - 1
        \<and> (0 \<le> dp \<longrightarrow> fst (TreeDebugger_layer E d dp b) = Inl (DepthOutOfRange dp (- 1))))"
proof -
  have "\<not> has_vnode_within None 0 (wrapped (current d)) \<and> cache_ok E d \<longrightarrow>
          fst (TreeDebugger_depth E d) = - 1"
    by (simp add: depth_is_stats get_stats_ok no_vnode_tree_stats)
  then show ?thesis
    by (auto simp: no_vnode_tree_stats layer_result)
qed

theorem no_decision_node_depth_witness:
  "\<not> has_vnode_within None 0 (wrapped (node_pp lone_action None))
   \<and> \<not> has_vnode_within None 0 (wrapped (current (TreeDebugger_init lone_action 0)))
   \<and> cache_ok E0 (TreeDebugger_init lone_action 0)
   \<and> max_depth (tree_stats E0 (node_pp lone_action None) None) = - 1
   \<and> fst (TreeDebugger_depth E0 (TreeDebugger_init lone_action 0)) = - 1
   \<and> (0::int) \<le> 0
   \<and> fst (TreeDebugger_layer E0 (TreeDebugger_init lone_action 0) 0 False)
       = Inl (DepthOutOfRange 0 (- 1))"
proof -
  have a: "\<not> has_vnode_within None 0 (wrapped (node_pp lone_action None))"
    by (simp add: node_pp_def lone_action_def)
  have b: "\<not> has_vnode_within None 0 (wrapped (current (TreeDebugger_init lone_action 0)))"
    by (simp add: TreeDebugger_init_def node_pp_def lone_action_def)
  have c: "cache_ok E0 (TreeDebugger_init lone_action 0)"
    by (simp add: cache_ok_def TreeDebugger_init_def)
  from no_decision_node_depth
         [of None "node_pp lone_action None" E0 "TreeDebugger_init lone_action 0" 0 False] a b c
  show ?thesis by simp
qed

text \<open>
  C1: on the chain Decision, Action, Decision the maximum depth of a Decision node, as
  the claim defines it, is 1; \<^verbatim>\<open>tree_stats\<close> gives \<^verbatim>\<open>max_depth = 2\<close>, since
  \<^verbatim>\<open>_tree_stats_helper\<close> adds one at every edge and assigns the depth of the \<^verbatim>\<open>VNode\<close> it
  is at instead of folding it into a maximum.
\<close>

theorem tree_stats_max_depth_chain:
  "max_depth (tree_stats E (node_pp chain None) None) = 2 \<and> max_decision_depth chain = 1"
  by (simp add: tree_stats_def chain_def node_pp_def tree_stats_helper.simps getitem_def
        stats.defs asc_def max_decision_depth_def)

text \<open>
  C5: a string key on a node without children does not reach the ValueError that names
  the key: \<^verbatim>\<open>max\<close> over no edges raises first.  (Lemma \<open>getitem_fuzzy\<close> is the claim for a
  node with children.)
\<close>

theorem getitem_str_no_children:
  "getitem E (node_pp (TreeNode k n v []) pe) (PyStr s) = Inl MaxEmptyError
   \<and> getitem E (node_pp (TreeNode k n v []) pe) (PyStr s) \<noteq> Inl (CannotAccess (PyStr s))"
  by (simp add: getitem_def node_pp_def)

text \<open>
  C4, as found: the key \<open>- 1\<close> is no edge label of the scenario's root and lies outside
  \<open>[0, 2)\<close>, yet the lookup returns the child \<^verbatim>\<open>"up"\<close>, the last of the sorted labels.
\<close>

theorem getitem_int_counterexample:
  "map_of (children scenario) (PyInt (- 1)) = None
   \<and> \<not> (0 \<le> (- 1 :: int) \<and> (- 1 :: int) < int (length (children scenario)))
   \<and> getitem E0 (node_pp scenario None) (PyInt (- 1))
       = Inr (node_pp (TreeNode QNode 5 1 []) (Some (PyStr (asc ''up''))))"
  by (simp add: getitem_def node_pp_def scenario_def asc_def sorted_by_str_def py_index_def E0_def)

text \<open>
  C4, amended: for an integer key \<open>k\<close> that is no edge label of a node with \<open>n\<close> children,
  the lookup fails with IndexError exactly when \<open>k < - n\<close> or \<open>n \<le> k\<close>; for \<open>0 \<le> k < n\<close>
  it returns the proxy of the child at position \<open>k\<close> of the edge labels sorted by their
  string form, its parent edge being that label, and for \<open>- n \<le> k < 0\<close> the one at
  position \<open>n + k\<close>.
\<close>

theorem getitem_int_index:
  assumes "map_of (children (wrapped self)) (PyInt k) = None"
    and "edges = sorted_by_str E (map fst (children (wrapped self)))"
    and "n = int (length (children (wrapped self)))"
  shows "sorted (map (py_str E) edges) \<and> set edges = fst ` set (children (wrapped self))
         \<and> int (length edges) = n
         \<and> (getitem E self (PyInt k) = Inl IndexError \<longleftrightarrow> k < - n \<or> n \<le> k)
         \<and> (0 \<le> k \<and> k < n \<longrightarrow>
              (\<exists>child. map_of (children (wrapped self)) (edges ! nat k) = Some child
                 \<and> getitem E self (PyInt k) = Inr (node_pp child (Some (edges ! nat k)))))
         \<and> (- n \<le> k \<and> k < 0 \<longrightarrow>
              (\<exists>child. map_of (children (wrapped self)) (edges ! nat (n + k)) = Some child
                 \<and> getitem E self (PyInt k) = Inr (node_pp child (Some (edges ! nat (n + k))))))"
proof -
  let ?cs = "children (wrapped self)"
  have p: "sorted (map (py_str E) edges)" "set edges = fst ` set ?cs" "int (length edges) = n"
    using sorted_by_str_props [of E "map fst ?cs"] assms(2,3) by simp_all
  have len: "length edges = length ?cs" using p(3) assms(3) by simp
  have nth: "\<And>j. j < length ?cs \<Longrightarrow> \<exists>child. map_of ?cs (edges ! j) = Some child"
  proof -
    fix j assume "j < length ?cs"
    then have "edges ! j \<in> set edges" using len by simp
    then show "\<exists>child. map_of ?cs (edges ! j) = Some child"
      using p(2) map_of_edge by fastforce
  qed
  have g: "getitem E self (PyInt k) =
             (case py_index edges k of None \<Rightarrow> Inl IndexError
              | Some e \<Rightarrow> (case map_of ?cs e of None \<Rightarrow> Inl KeyError
                           | Some child \<Rightarrow> Inr (node_pp child (Some e))))"
    using assms(1,2) by (simp add: getitem_def Let_def)
  have a: "0 \<le> k \<and> k < n \<longrightarrow>
              (\<exists>child. map_of ?cs (edges ! nat k) = Some child
                 \<and> getitem E self (PyInt k) = Inr (node_pp child (Some (edges ! nat k))))"
  proof
    assume r: "0 \<le> k \<and> k < n"
    then have "nat k < length ?cs" using assms(3) by (simp add: nat_less_iff)
    from nth [OF this] obtain child where c: "map_of ?cs (edges ! nat k) = Some child" by blast
    have "py_index edges k = Some (edges ! nat k)" using r p(3) by (simp add: py_index_def)
    with c g show "\<exists>child. map_of ?cs (edges ! nat k) = Some child
                 \<and> getitem E self (PyInt k) = Inr (node_pp child (Some (edges ! nat k)))"
      by simp
  qed
  have b: "- n \<le> k \<and> k < 0 \<longrightarrow>
              (\<exists>child. map_of ?cs (edges ! nat (n + k)) = Some child
                 \<and> getitem E self (PyInt k) = Inr (node_pp child (Some (edges ! nat (n + k)))))"
  proof
    assume r: "- n \<le> k \<and> k < 0"
    then have "nat (n + k) < length ?cs" using assms(3) by (simp add: nat_less_iff)
    from nth [OF this] obtain child where c: "map_of ?cs (edges ! nat (n + k)) = Some child"
      by blast
    have "py_index edges k = Some (edges ! nat (n + k))"
      using r p(3) by (simp add: py_index_def)
    with c g show "\<exists>child. map_of ?cs (edges ! nat (n + k)) = Some child
                 \<and> getitem E self (PyInt k) = Inr (node_pp child (Some (edges ! nat (n + k))))"
      by simp
  qed
  have c: "getitem E self (PyInt k) = Inl IndexError \<longleftrightarrow> k < - n \<or> n \<le> k"
  proof (cases "k < - n \<or> n \<le> k")
    case True
    then have "py_index edges k = None" using p(3) by (auto simp: py_index_def)
    with g True show ?thesis by simp
  next
    case False
    then have "(0 \<le> k \<and> k < n) \<or> (- n \<le> k \<and> k < 0)" by arith
    with a b False show ?thesis by auto
  qed
  from p a b c show ?thesis by blast
qed

theorem getitem_int_index_witness:
  "map_of (children (wrapped (node_pp scenario None))) (PyInt 0) = None
   \<and> (0::int) \<le> 0 \<and> (0::int) < 2
   \<and> getitem E0 (node_pp scenario None) (PyInt 0)
       = Inr (node_pp (TreeNode QNode 1 2 []) (Some (PyStr (asc ''down''))))
   \<and> map_of (children (wrapped (node_pp scenario None))) (PyInt (- 2)) = None
   \<and> - (2::int) \<le> - 2 \<and> - (2::int) < 0
   \<and> getitem E0 (node_pp scenario None) (PyInt (- 2))
       = Inr (node_pp (TreeNode QNode 1 2 []) (Some (PyStr (asc ''down''))))
   \<and> (getitem E0 (node_pp scenario None) (PyInt 2) = Inl IndexError)"
proof -
  have h: "\<And>k. map_of (children (wrapped (node_pp scenario None))) (PyInt k) = None"
    by (simp add: node_pp_def scenario_def)
  have e: "sorted_by_str E0 (map fst (children (wrapped (node_pp scenario None))))
             = [PyStr (asc ''down''), PyStr (asc ''up'')]"
    by (simp add: node_pp_def scenario_def sorted_by_str_def asc_def)
  have n: "(2::int) = int (length (children (wrapped (node_pp scenario None))))"
    by (simp add: node_pp_def scenario_def)
  have m: "map_of (children (wrapped (node_pp scenario None))) (PyStr (asc ''down''))
             = Some (TreeNode QNode 1 2 [])"
    by (simp add: node_pp_def scenario_def asc_def)
  from getitem_int_index [OF h e [symmetric] n, of 0]
       getitem_int_index [OF h e [symmetric] n, of "- 2"]
       getitem_int_index [OF h e [symmetric] n, of 2]
  show ?thesis using h m by auto
qed


text \<open>
  C9, as found: \<^verbatim>\<open>p(max_depth=-1)\<close> returns at the depth test, before the assignment, and
  the flag is still set.
\<close>

theorem render_flag_counterexample:
  "print_children (snd (NodePP_p E0 (node_pp scenario None) (Some (- 1)) (asc ''summary'')))
   \<and> print_children (snd (print_tree E0 (node_pp scenario None) (Some (- 1)) (asc ''summary'')))"
  by (simp add: NodePP_p_def print_tree_snd node_pp_def)

text \<open>
  C9, amended: a proxy is made with \<^verbatim>\<open>print_children\<close> set; \<^verbatim>\<open>print_tree\<close> and \<^verbatim>\<open>p\<close> with no
  \<^verbatim>\<open>max_depth\<close> or one that is at least 0, and \<^verbatim>\<open>pp\<close>, clear it on the proxy they start
  from and nothing sets it again; the string form of the proxy, and of a debugger whose
  current it is, then stops at the node's own line, where before it went on with the
  listing of the children; the wrapped node is left as it was.
\<close>

theorem render_clears_print_children:
  assumes "case md of None \<Rightarrow> True | Some m \<Rightarrow> 0 \<le> m"
  shows "print_children (node_pp node pe)
       \<and> snd (print_tree E self md pt) = self\<lparr>print_children := False\<rparr>
       \<and> snd (NodePP_p E self md pt) = self\<lparr>print_children := False\<rparr>
       \<and> snd (NodePP_pp E self) = self\<lparr>print_children := False\<rparr>
       \<and> proxy_str E (self\<lparr>print_children := False\<rparr>)
           = single_node_head E True (wrapped self) (parent_edge self)
       \<and> (print_children self \<longrightarrow>
            proxy_str E self
            = proxy_str E (self\<lparr>print_children := False\<rparr>)
              @ [10] @ child_listing E (wrapped self) @ [10])
       \<and> \<not> print_children (snd (print_tree E (snd (print_tree E self md pt)) md' pt'))
       \<and> current (snd (TreeDebugger_p E d md pt)) = (current d)\<lparr>print_children := False\<rparr>
       \<and> current (snd (TreeDebugger_pp E d)) = (current d)\<lparr>print_children := False\<rparr>
       \<and> TreeDebugger_str E (snd (TreeDebugger_p E d md pt))
           = single_node_head E True (wrapped (current d)) (parent_edge (current d))
       \<and> wrapped (snd (print_tree E self md pt)) = wrapped self
       \<and> wrapped (current (snd (TreeDebugger_p E d md pt))) = wrapped (current d)"
proof -
  have m: "\<not> (case md of None \<Rightarrow> False | Some m \<Rightarrow> m < 0)"
    using assms by (cases md) auto
  have a: "\<And>s. snd (print_tree E s md pt) = s\<lparr>print_children := False\<rparr>"
    using m by (simp add: print_tree_snd)
  have b: "\<And>s. snd (NodePP_pp E s) = s\<lparr>print_children := False\<rparr>"
    by (simp add: NodePP_pp_def print_tree_snd)
  have c: "\<not> print_children (snd (print_tree E (self\<lparr>print_children := False\<rparr>) md' pt'))"
    by (simp add: print_tree_snd)
  have d1: "current (snd (TreeDebugger_p E d md pt)) = (current d)\<lparr>print_children := False\<rparr>"
    using a [of "current d"] by (simp add: TreeDebugger_p_def NodePP_p_def case_prod_beta)
  have d2: "current (snd (TreeDebugger_pp E d)) = (current d)\<lparr>print_children := False\<rparr>"
    using b [of "current d"] by (simp add: TreeDebugger_pp_def case_prod_beta)
  show ?thesis
    using c by (simp add: a b d1 d2 NodePP_p_def TreeDebugger_str_def proxy_str_flag node_pp_def)
qed

theorem render_clears_print_children_witness:
  "(case Some (0::int) of None \<Rightarrow> True | Some m \<Rightarrow> 0 \<le> m)
   \<and> print_children (node_pp scenario None)
   \<and> snd (NodePP_p E0 (node_pp scenario None) (Some 0) (asc ''summary''))
       = (node_pp scenario None)\<lparr>print_children := False\<rparr>
   \<and> proxy_str E0 (node_pp scenario None)
       = proxy_str E0 (snd (NodePP_p E0 (node_pp scenario None) (Some 0) (asc ''summary'')))
         @ [10] @ child_listing E0 scenario @ [10]"
proof -
  have h: "case Some (0::int) of None \<Rightarrow> True | Some m \<Rightarrow> 0 \<le> m" by simp
  have w: "wrapped (node_pp scenario None) = scenario" by (simp add: node_pp_def)
  from render_clears_print_children [OF h, of scenario None E0 "node_pp scenario None"]
  show ?thesis by (simp add: w)
qed





text \<open>
  C6: at a node with children that the bound lets through, in a tree whose kinds
  alternate, the trace picks the first child, in the order of the mapping, whose value is
  the greatest (every earlier child lies strictly below it, no later one above); at a
  Decision node it prints that child's edge with the edges of all other children of the
  same value, and it goes on in the chosen child.  On the scenario it prints \<^verbatim>\<open>"down"\<close> with
  an empty list.
\<close>

theorem preferred_path_step:
  assumes "wf_tree t" and "alternates t" and "children t \<noteq> []"
    and "case md of None \<Rightarrow> True | Some m \<Rightarrow> depth < m"
  shows "\<exists>pre b child post. children t = pre @ (b, child) # post
           \<and> (\<forall>(e, c) \<in> set pre. node_value c < node_value child)
           \<and> (\<forall>(e, c) \<in> set post. node_value c \<le> node_value child)
           \<and> print_preferred_actions_helper (Some t) depth md
               = (if kind t = VNode
                  then [\<lparr>pl_best = b,
                         pl_equally_good =
                           map fst (filter (\<lambda>(e, c). e \<noteq> b \<and> node_value c = node_value child)
                                           (children t))\<rparr>]
                  else [])
                 @ print_preferred_actions_helper (Some child) (depth + 1) md"
proof -
  have d: "distinct (map fst (children t))" using assms(1) by (rule wf_tree_distinct)
  from best_of_first_max [OF d assms(3)] obtain pre b child post where
    dec: "children t = pre @ (b, child) # post"
    and lt: "\<forall>(e, c) \<in> set pre. node_value c < node_value child"
    and le: "\<forall>(e, c) \<in> set post. node_value c \<le> node_value child"
    and r: "best_of (children t) = (Some b, Fin (node_value child))" by blast
  have m: "map_of (children t) b = Some child"
    by (rule map_of_distinct_mem [OF d]) (simp add: dec)
  from alternates_child [OF assms(2) m] have k: "kind child \<noteq> kind t" by simp
  have bound: "\<not> (case md of None \<Rightarrow> False | Some m \<Rightarrow> depth \<ge> m)"
    using assms(4) by (cases md) auto
  have "print_preferred_actions_helper (Some t) depth md
               = (if kind t = VNode
                  then [\<lparr>pl_best = b,
                         pl_equally_good =
                           map fst (filter (\<lambda>(e, c). e \<noteq> b \<and> node_value c = node_value child)
                                           (children t))\<rparr>]
                  else [])
                 @ print_preferred_actions_helper (Some child) (depth + 1) md"
    apply (subst print_preferred_actions_helper.simps)
    using bound k
    apply (simp add: r m equally_good_of_filter [OF d] Let_def)
    apply (cases "kind t"; cases "kind child"; simp)
    done
  with dec lt le show ?thesis by blast
qed

theorem preferred_path_step_witness:
  "wf_tree scenario \<and> alternates scenario \<and> children scenario \<noteq> []
   \<and> (case (None :: int option) of None \<Rightarrow> True | Some m \<Rightarrow> 0 < m)
   \<and> (\<exists>pre b child post. children scenario = pre @ (b, child) # post
           \<and> (\<forall>(e, c) \<in> set pre. node_value c < node_value child)
           \<and> (\<forall>(e, c) \<in> set post. node_value c \<le> node_value child)
           \<and> print_preferred_actions_helper (Some scenario) 0 None
               = (if kind scenario = VNode
                  then [\<lparr>pl_best = b,
                         pl_equally_good =
                           map fst (filter (\<lambda>(e, c). e \<noteq> b \<and> node_value c = node_value child)
                                           (children scenario))\<rparr>]
                  else [])
                 @ print_preferred_actions_helper (Some child) (0 + 1) None)
   \<and> print_preferred_actions scenario None
       = [\<lparr>pl_best = PyStr (asc ''down''), pl_equally_good = []\<rparr>]"
proof -
  have w: "wf_tree scenario" by (simp add: scenario_def asc_def)
  have a: "alternates scenario" by (simp add: scenario_def)
  have c: "children scenario \<noteq> []" by (simp add: scenario_def)
  have b: "case (None :: int option) of None \<Rightarrow> True | Some m \<Rightarrow> 0 < m" by simp
  have e: "print_preferred_actions scenario None
       = [\<lparr>pl_best = PyStr (asc ''down''), pl_equally_good = []\<rparr>]"
    by (simp add: print_preferred_actions_def print_preferred_actions_helper.simps scenario_def
        best_of_def equally_good_of_def asc_def)
  from preferred_path_step [OF w a c b] w a c e show ?thesis by simp
qed







end
